theory Spec2Isabelle
  imports Main "HOL-Library.Word"
begin

unbundle bit_operations_syntax

section \<open>Data model of package zcbit (bitvec.go)\<close>

text \<open>
  Go's \<open>uint64\<close> is \<open>64 word\<close>. Go's \<open>uint\<close> is modelled as \<open>64 word\<close> too
  (the 64-bit targets); its arithmetic wraps. Go's \<open>int\<close> loop counters range over
  \<open>0 .. len(b.vec)\<close> only and are natural numbers; where such a counter is turned into
  a \<open>uint\<close> the conversion \<open>of_nat\<close> wraps modulo \<open>2 ^ 64\<close>.
\<close>

type_synonym uint64 = "64 word"
type_synonym uint = "64 word"
type_synonym byte = "8 word"

definition wordBytes :: nat where
  "wordBytes = 8"

definition wordSize :: uint where
  "wordSize = 64"

definition log2WordSize :: nat where
  "log2WordSize = 6"

definition allBits :: uint64 where
  "allBits = 0xffffffffffffffff"

datatype error = ErrInvalidEndianness | ErrInvalidLength | ErrUnsupportedArch

text \<open>
  Modelled from the spec: the type \<open>Endianness\<close> and its constants \<open>LittleEndian\<close> and
  \<open>BigEndian\<close> are declared outside bitvec.go. The spec names two recognised values
  (Little, Big) and lets both the declared and the host value be unrecognised, so the
  type has a third constructor carrying any other value.
\<close>

datatype Endianness = LittleEndian | BigEndian | OtherEndian nat

definition swapUint64 :: "uint64 \<Rightarrow> uint64" where
  "swapUint64 n =
     (push_bit 56 (n AND 0x00000000000000FF) OR
      push_bit 40 (n AND 0x000000000000FF00) OR
      push_bit 24 (n AND 0x0000000000FF0000) OR
      push_bit 8 (n AND 0x00000000FF000000) OR
      drop_bit 8 (n AND 0x000000FF00000000) OR
      drop_bit 24 (n AND 0x0000FF0000000000) OR
      drop_bit 40 (n AND 0x00FF000000000000) OR
      drop_bit 56 (n AND 0xFF00000000000000))"

record BitVec =
  vec :: "uint64 list"
  swap :: bool

subsection \<open>The standard library's bit counts\<close>

text \<open>
  \<open>bits.TrailingZeros64\<close> and \<open>bits.LeadingZeros64\<close> of Go's \<open>math/bits\<close>: the number of
  zero bits below the lowest, respectively above the highest, set bit; 64 for 0.
\<close>

definition TrailingZeros64 :: "uint64 \<Rightarrow> nat" where
  "TrailingZeros64 x = length (takeWhile (\<lambda>k. \<not> bit x k) [0..<64])"

definition LeadingZeros64 :: "uint64 \<Rightarrow> nat" where
  "LeadingZeros64 x = length (takeWhile (\<lambda>k. \<not> bit x k) (rev [0..<64]))"

subsection \<open>Construction\<close>

text \<open>
  \<open>New\<close> reinterprets the byte slice as a slice of \<open>uint64\<close> through
  \<open>reflect.SliceHeader\<close>: each group of 8 bytes is read as one word in the byte order
  of the host. \<open>hostEndian\<close> is a package variable declared outside bitvec.go; it is a
  parameter here.
\<close>

fun word_of_bytes_le :: "byte list \<Rightarrow> uint64" where
  "word_of_bytes_le [] = 0"
| "word_of_bytes_le (x # xs) = ucast x OR push_bit 8 (word_of_bytes_le xs)"

definition load_word :: "Endianness \<Rightarrow> byte list \<Rightarrow> uint64" where
  "load_word hostEndian bs =
     (if hostEndian = BigEndian then word_of_bytes_le (rev bs) else word_of_bytes_le bs)"

fun chunks8 :: "nat \<Rightarrow> 'a list \<Rightarrow> 'a list list" where
  "chunks8 0 bs = []"
| "chunks8 (Suc n) bs = take 8 bs # chunks8 n (drop 8 bs)"

definition words_of_bytes :: "Endianness \<Rightarrow> byte list \<Rightarrow> uint64 list" where
  "words_of_bytes hostEndian b =
     map (load_word hostEndian) (chunks8 (length b div wordBytes) b)"

definition New :: "Endianness \<Rightarrow> byte list \<Rightarrow> Endianness \<Rightarrow> error + BitVec" where
  "New hostEndian b endian =
     (if length b mod 8 \<noteq> 0 then Inl ErrInvalidLength
      else if endian \<noteq> LittleEndian \<and> endian \<noteq> BigEndian then Inl ErrInvalidEndianness
      else if hostEndian \<noteq> LittleEndian \<and> hostEndian \<noteq> BigEndian then Inl ErrUnsupportedArch
      else Inr \<lparr>vec = words_of_bytes hostEndian b, swap = (endian \<noteq> hostEndian)\<rparr>)"

subsection \<open>Single-bit access\<close>

definition Test :: "BitVec \<Rightarrow> uint \<Rightarrow> bool" where
  "Test b i =
     (let idx = drop_bit log2WordSize i in
      if unat idx \<ge> length (vec b) then False
      else if swap b then
        (let v = swapUint64 (vec b ! unat idx) in
         v AND push_bit (unat (i AND (wordSize - 1))) 1 \<noteq> 0)
      else vec b ! unat idx AND push_bit (unat (i AND (wordSize - 1))) 1 \<noteq> 0)"

text \<open>\<open>Set\<close> and \<open>Clear\<close> write through the pointer receiver: they return the result
  and the vector after the call.\<close>

definition Set :: "BitVec \<Rightarrow> uint \<Rightarrow> bool \<times> BitVec" where
  "Set b i =
     (let idx = drop_bit log2WordSize i in
      if unat idx \<ge> length (vec b) then (False, b)
      else if swap b then
        (let v = swapUint64 (vec b ! unat idx);
             v = v OR push_bit (unat (i AND (wordSize - 1))) 1
         in (True, b\<lparr>vec := (vec b)[unat idx := swapUint64 v]\<rparr>))
      else
        (True, b\<lparr>vec := (vec b)[unat idx :=
                  vec b ! unat idx OR push_bit (unat (i AND (wordSize - 1))) 1]\<rparr>))"

definition Clear :: "BitVec \<Rightarrow> uint \<Rightarrow> bool \<times> BitVec" where
  "Clear b i =
     (let idx = drop_bit log2WordSize i in
      if unat idx \<ge> length (vec b) then (False, b)
      else if swap b then
        (let v = swapUint64 (vec b ! unat idx);
             v = v AND NOT (push_bit (unat (i AND (wordSize - 1))) 1)
         in (True, b\<lparr>vec := (vec b)[unat idx := swapUint64 v]\<rparr>))
      else
        (True, b\<lparr>vec := (vec b)[unat idx :=
                  vec b ! unat idx AND NOT (push_bit (unat (i AND (wordSize - 1))) 1)]\<rparr>))"

subsection \<open>Scans\<close>

text \<open>The \<open>for idx++; idx < len(b.vec); idx++\<close> loops, one per branch of the source.\<close>

function ffo_loop_swap :: "uint64 list \<Rightarrow> nat \<Rightarrow> uint \<times> bool" where
  "ffo_loop_swap ws idx =
     (if idx < length ws then
        (if ws ! idx \<noteq> 0
         then (of_nat idx * wordSize + of_nat (TrailingZeros64 (swapUint64 (ws ! idx))), True)
         else ffo_loop_swap ws (Suc idx))
      else (0, False))"
  by pat_completeness auto
termination
  by (relation "measure (\<lambda>(ws, idx). length ws - idx)") auto

function ffo_loop :: "uint64 list \<Rightarrow> nat \<Rightarrow> uint \<times> bool" where
  "ffo_loop ws idx =
     (if idx < length ws then
        (if ws ! idx \<noteq> 0
         then (of_nat idx * wordSize + of_nat (TrailingZeros64 (ws ! idx)), True)
         else ffo_loop ws (Suc idx))
      else (0, False))"
  by pat_completeness auto
termination
  by (relation "measure (\<lambda>(ws, idx). length ws - idx)") auto

definition FindFirstOne :: "BitVec \<Rightarrow> uint \<Rightarrow> uint \<times> bool" where
  "FindFirstOne b i =
     (let idx = unat (drop_bit log2WordSize i) in
      if idx \<ge> length (vec b) then (0, False)
      else if swap b then
        (let v = swapUint64 (vec b ! idx);
             v = drop_bit (unat (i AND (wordSize - 1))) v
         in if v \<noteq> 0 then (i + of_nat (TrailingZeros64 v), True)
            else ffo_loop_swap (vec b) (Suc idx))
      else
        (let v = drop_bit (unat (i AND (wordSize - 1))) (vec b ! idx)
         in if v \<noteq> 0 then (i + of_nat (TrailingZeros64 v), True)
            else ffo_loop (vec b) (Suc idx)))"

function ffz_loop_swap :: "uint64 list \<Rightarrow> nat \<Rightarrow> uint \<times> bool" where
  "ffz_loop_swap ws idx =
     (if idx < length ws then
        (if ws ! idx \<noteq> allBits
         then (of_nat idx * wordSize +
                 of_nat (TrailingZeros64 (NOT (swapUint64 (ws ! idx)))), True)
         else ffz_loop_swap ws (Suc idx))
      else (0, False))"
  by pat_completeness auto
termination
  by (relation "measure (\<lambda>(ws, idx). length ws - idx)") auto

function ffz_loop :: "uint64 list \<Rightarrow> nat \<Rightarrow> uint \<times> bool" where
  "ffz_loop ws idx =
     (if idx < length ws then
        (if ws ! idx \<noteq> allBits
         then (of_nat idx * wordSize + of_nat (TrailingZeros64 (NOT (ws ! idx))), True)
         else ffz_loop ws (Suc idx))
      else (0, False))"
  by pat_completeness auto
termination
  by (relation "measure (\<lambda>(ws, idx). length ws - idx)") auto

definition FindFirstZero :: "BitVec \<Rightarrow> uint \<Rightarrow> uint \<times> bool" where
  "FindFirstZero b i =
     (let idx = unat (drop_bit log2WordSize i) in
      if idx \<ge> length (vec b) then (0, False)
      else if swap b then
        (let offset = i AND (wordSize - 1);
             v = drop_bit (unat offset) (swapUint64 (vec b ! idx));
             trail = (of_nat (TrailingZeros64 (NOT v)) :: uint)
         in if trail < wordSize - offset then (i + trail, True)
            else ffz_loop_swap (vec b) (Suc idx))
      else
        (let offset = i AND (wordSize - 1);
             v = drop_bit (unat offset) (vec b ! idx);
             trail = (of_nat (TrailingZeros64 (NOT v)) :: uint)
         in if trail < wordSize - offset then (i + trail, True)
            else ffz_loop (vec b) (Suc idx)))"

text \<open>The \<open>for i := len(b.vec); i > 0; i--\<close> loops. The expression
  \<open>uint(i*wordSize - bits.LeadingZeros64(v) - 1)\<close> is computed in \<open>int\<close> and converted;
  both wrap modulo \<open>2 ^ 64\<close>, so it is computed in \<open>64 word\<close>.\<close>

fun flo_loop_swap :: "uint64 list \<Rightarrow> nat \<Rightarrow> uint \<times> bool" where
  "flo_loop_swap ws 0 = (0, False)"
| "flo_loop_swap ws (Suc k) =
     (let v = ws ! k in
      if v \<noteq> 0 then
        (let v = swapUint64 v
         in (of_nat (Suc k) * wordSize - of_nat (LeadingZeros64 v) - 1, True))
      else flo_loop_swap ws k)"

fun flo_loop :: "uint64 list \<Rightarrow> nat \<Rightarrow> uint \<times> bool" where
  "flo_loop ws 0 = (0, False)"
| "flo_loop ws (Suc k) =
     (let v = ws ! k in
      if v \<noteq> 0 then (of_nat (Suc k) * wordSize - of_nat (LeadingZeros64 v) - 1, True)
      else flo_loop ws k)"

definition FindLastOne :: "BitVec \<Rightarrow> uint \<times> bool" where
  "FindLastOne b =
     (if swap b then flo_loop_swap (vec b) (length (vec b))
      else flo_loop (vec b) (length (vec b)))"

subsection \<open>The vector as the operations read it\<close>

text \<open>Word \<open>k\<close> of the buffer after the byte swap that every operation applies when
  \<open>swap\<close> is set: the logical word whose bit 0 is bit \<open>64 * k\<close> of the vector.\<close>

definition lword :: "BitVec \<Rightarrow> nat \<Rightarrow> uint64" where
  "lword b k = (if swap b then swapUint64 (vec b ! k) else vec b ! k)"

text \<open>A call of one of the six methods, and the vector it leaves behind: \<open>Set\<close> and
  \<open>Clear\<close> store into \<open>b.vec\<close>; the other four only read.\<close>

datatype op = OpTest uint | OpSet uint | OpClear uint
  | OpFindFirstOne uint | OpFindFirstZero uint | OpFindLastOne

fun apply_op :: "BitVec \<Rightarrow> op \<Rightarrow> BitVec" where
  "apply_op b (OpTest i) = b"
| "apply_op b (OpSet i) = snd (Set b i)"
| "apply_op b (OpClear i) = snd (Clear b i)"
| "apply_op b (OpFindFirstOne i) = b"
| "apply_op b (OpFindFirstZero i) = b"
| "apply_op b OpFindLastOne = b"

text \<open>All logical words of the vector, and bit \<open>n\<close> of a list of words: bit
  \<open>n mod 64\<close> of word \<open>n div 64\<close>, unset past the last word.\<close>

definition lwords :: "BitVec \<Rightarrow> uint64 list" where
  "lwords b = (if swap b then map swapUint64 (vec b) else vec b)"

definition wbit :: "uint64 list \<Rightarrow> nat \<Rightarrow> bool" where
  "wbit ws n \<longleftrightarrow> n div 64 < length ws \<and> bit (ws ! (n div 64)) (n mod 64)"

text \<open>The byte-swapped copy of a buffer: every group of 8 bytes reversed, the groups in
  their order.\<close>

definition byteswap8 :: "byte list \<Rightarrow> byte list" where
  "byteswap8 b = concat (map rev (chunks8 (length b div 8) b))"

section \<open>Byte swap and index arithmetic\<close>

lemma masks:
  "(0xFF :: uint64) = mask 8"
  "(0xFF00 :: uint64) = push_bit 8 (mask 8)"
  "(0xFF0000 :: uint64) = push_bit 16 (mask 8)"
  "(0xFF000000 :: uint64) = push_bit 24 (mask 8)"
  "(0xFF00000000 :: uint64) = push_bit 32 (mask 8)"
  "(0xFF0000000000 :: uint64) = push_bit 40 (mask 8)"
  "(0xFF000000000000 :: uint64) = push_bit 48 (mask 8)"
  "(0xFF00000000000000 :: uint64) = push_bit 56 (mask 8)"
  by (simp_all add: mask_eq_exp_minus_1)

lemma bit64: "bit (w :: uint64) k \<Longrightarrow> k < 64"
  by (auto dest: bit_imp_le_length)

lemma pterm: "bit (push_bit a (n AND push_bit s (mask 8)) :: uint64) k \<longleftrightarrow>
   k < 64 \<and> a + s \<le> k \<and> k < a + s + 8 \<and> bit n (k - a)"
  by (auto simp add: bit_simps dest: bit64)

lemma dterm: "bit (drop_bit a (n AND push_bit s (mask 8)) :: uint64) k \<longleftrightarrow>
   s \<le> a + k \<and> a + k < s + 8 \<and> bit n (a + k)"
  by (auto simp add: bit_simps dest: bit64)

lemma pterm0: "bit (push_bit a (n AND 255) :: uint64) k \<longleftrightarrow>
   k < 64 \<and> a \<le> k \<and> k < a + 8 \<and> bit n (k - a)"
  unfolding masks(1) by (auto simp add: bit_simps dest: bit64)

lemma swap_bit_aux: "r < 8 \<Longrightarrow> q < 8 \<Longrightarrow> bit (swapUint64 n) (8 * q + r) \<longleftrightarrow> bit n (8 * (7 - q) + r)"
  unfolding swapUint64_def masks(2-) bit_or_iff pterm dterm pterm0
  apply (subgoal_tac "q = 0 \<or> q = 1 \<or> q = 2 \<or> q = 3 \<or> q = 4 \<or> q = 5 \<or> q = 6 \<or> q = 7")
   apply (elim disjE; simp)
  apply arith
  done

lemma swap_bit: "bit (swapUint64 n) k \<longleftrightarrow> k < 64 \<and> bit n (8 * (7 - k div 8) + k mod 8)"
proof (cases "k < 64")
  case False
  then show ?thesis using bit64 by blast
next
  case True
  then have "k mod 8 < 8" "k div 8 < 8" by auto
  from swap_bit_aux[OF this, of n] True show ?thesis by simp
qed

lemma swap_swap: "swapUint64 (swapUint64 n) = n"
proof (rule bit_word_eqI)
  fix k assume "k < LENGTH(64)"
  then have q: "k div 8 < 8" and r: "k mod 8 < 8" by simp_all
  have k: "k = 8 * (k div 8) + k mod 8" by simp
  have "bit (swapUint64 (swapUint64 n)) (8 * (k div 8) + k mod 8) =
        bit (swapUint64 n) (8 * (7 - k div 8) + k mod 8)"
    by (rule swap_bit_aux[OF r q])
  also have "\<dots> = bit n (8 * (7 - (7 - k div 8)) + k mod 8)"
    by (rule swap_bit_aux[OF r]) simp
  also from q have "7 - (7 - k div 8) = k div 8" by simp
  finally show "bit (swapUint64 (swapUint64 n)) k = bit n k"
    using k by simp
qed

lemma swap_inj: "swapUint64 x = swapUint64 y \<longleftrightarrow> x = y"
  by (metis swap_swap)

lemma swap_0: "swapUint64 0 = 0"
  by (simp add: swapUint64_def)

lemma swap_allBits: "swapUint64 allBits = allBits"
  by (simp add: swapUint64_def allBits_def)

lemma swap_eq_0: "swapUint64 x = 0 \<longleftrightarrow> x = 0"
  using swap_inj[of x 0] by (simp add: swap_0)

lemma swap_eq_allBits: "swapUint64 x = allBits \<longleftrightarrow> x = allBits"
  using swap_inj[of x allBits] by (simp add: swap_allBits)

lemma unat_idx: "unat (drop_bit log2WordSize (i::uint)) = unat i div 64"
  by (simp add: log2WordSize_def unat_drop_bit_eq drop_bit_eq_div unat_div)

lemma unat_off: "unat ((i::uint) AND (wordSize - 1)) = unat i mod 64"
proof -
  have "(wordSize - 1 :: uint) = mask 6" by (simp add: wordSize_def mask_eq_exp_minus_1)
  then show ?thesis by (simp add: unsigned_take_bit_eq take_bit_eq_mod unat_mod flip: take_bit_eq_mask)
qed

lemma test_bit: "(w :: uint64) AND push_bit k 1 \<noteq> 0 \<longleftrightarrow> bit w k"
  by (simp add: bit_iff_and_push_bit_not_eq_0)


lemma test_bit_exp: "(w :: uint64) AND 2 ^ k \<noteq> 0 \<longleftrightarrow> bit w k"
  using test_bit[of w k] by simp

lemma bit_set_self: "k < 64 \<Longrightarrow> bit ((w::uint64) OR 2 ^ k) j \<longleftrightarrow> bit w j \<or> j = k"
  by (auto simp add: bit_simps dest: bit64)

lemma bit_clear_self: "k < 64 \<Longrightarrow> bit ((w::uint64) AND NOT (2 ^ k)) j \<longleftrightarrow> bit w j \<and> j \<noteq> k"
  by (auto simp add: bit_simps dest: bit64)

lemma Test_iff:
  "Test b i \<longleftrightarrow> unat i div 64 < length (vec b) \<and> bit (lword b (unat i div 64)) (unat i mod 64)"
  by (auto simp add: Test_def Let_def unat_idx unat_off test_bit_exp lword_def)

lemma Set_in_range:
  "unat i div 64 < length (vec b) \<Longrightarrow>
   fst (Set b i) \<and> swap (snd (Set b i)) = swap b \<and>
   length (vec (snd (Set b i))) = length (vec b) \<and>
   (\<forall>k. k \<noteq> unat i div 64 \<longrightarrow> vec (snd (Set b i)) ! k = vec b ! k) \<and>
   lword (snd (Set b i)) (unat i div 64) = lword b (unat i div 64) OR 2 ^ (unat i mod 64)"
  by (simp add: Set_def Let_def unat_idx unat_off lword_def swap_swap)

lemma Clear_in_range:
  "unat i div 64 < length (vec b) \<Longrightarrow>
   fst (Clear b i) \<and> swap (snd (Clear b i)) = swap b \<and>
   length (vec (snd (Clear b i))) = length (vec b) \<and>
   (\<forall>k. k \<noteq> unat i div 64 \<longrightarrow> vec (snd (Clear b i)) ! k = vec b ! k) \<and>
   lword (snd (Clear b i)) (unat i div 64) = lword b (unat i div 64) AND NOT (2 ^ (unat i mod 64))"
  by (simp add: Clear_def Let_def unat_idx unat_off lword_def swap_swap)

section \<open>Single-bit operations\<close>

lemma div_mod_eq_64: "a div 64 = b div 64 \<Longrightarrow> a mod 64 = b mod 64 \<Longrightarrow> a = (b::nat)"
  by (metis div_mult_mod_eq)

text \<open>
  C1. For every vector, whatever its contents and its swap flag, and every bit index \<open>i\<close>
  below the capacity \<open>64 * word count\<close>: \<open>Set i\<close> succeeds and \<open>Test i\<close> is true
  afterwards; \<open>Clear i\<close> succeeds and \<open>Test i\<close> is false afterwards.
\<close>

theorem set_clear_test_roundtrip:
  assumes "unat i < 64 * length (vec b)"
  shows "fst (Set b i) \<and> Test (snd (Set b i)) i \<and>
         fst (Clear b i) \<and> \<not> Test (snd (Clear b i)) i"
proof -
  from assms have idx: "unat i div 64 < length (vec b)" by simp
  show ?thesis using Set_in_range[OF idx] Clear_in_range[OF idx] idx
    by (simp add: Test_iff bit_set_self bit_clear_self)
qed

theorem set_clear_test_roundtrip_witness:
  "unat (70 :: uint) < 64 * length (vec \<lparr>vec = [3, 5], swap = True\<rparr>) \<and>
   Test (snd (Set \<lparr>vec = [3, 5], swap = True\<rparr> 70)) 70 \<and>
   \<not> Test (snd (Clear \<lparr>vec = [3, 5], swap = True\<rparr> 70)) 70"
  using set_clear_test_roundtrip [where i = 70 and b = "\<lparr>vec = [3, 5], swap = True\<rparr>"]
  by simp

text \<open>
  C6. For every vector and every index \<open>i\<close> whose word index \<open>i div 64\<close> is at or past
  the word count: \<open>Test i\<close> is false, and \<open>Set i\<close> and \<open>Clear i\<close> return false and leave
  the vector as it was.
\<close>

theorem out_of_range_soft_failure:
  assumes "length (vec b) \<le> unat i div 64"
  shows "Test b i = False \<and> Set b i = (False, b) \<and> Clear b i = (False, b)"
  using assms by (simp add: Test_def Set_def Clear_def Let_def unat_idx)

theorem out_of_range_soft_failure_witness:
  "length (vec \<lparr>vec = [1, 2], swap = False\<rparr>) \<le> unat (128 :: uint) div 64 \<and>
   Test \<lparr>vec = [1, 2], swap = False\<rparr> 128 = False \<and>
   Set \<lparr>vec = [1, 2], swap = False\<rparr> 128 = (False, \<lparr>vec = [1, 2], swap = False\<rparr>) \<and>
   Clear \<lparr>vec = [1, 2], swap = False\<rparr> 128 = (False, \<lparr>vec = [1, 2], swap = False\<rparr>)"
  using out_of_range_soft_failure [where i = 128 and b = "\<lparr>vec = [1, 2], swap = False\<rparr>"]
  by simp

text \<open>
  C10. For every vector and every index \<open>i\<close> below the capacity, \<open>Set i\<close> and \<open>Clear i\<close>
  change at most bit \<open>i\<close>: the word count is the same, every word other than word
  \<open>i div 64\<close> is the same, and \<open>Test j\<close> gives the same answer as before for every
  \<open>j \<noteq> i\<close>.
\<close>

theorem set_clear_frame:
  assumes "unat i < 64 * length (vec b)"
  shows "length (vec (snd (Set b i))) = length (vec b) \<and>
         length (vec (snd (Clear b i))) = length (vec b) \<and>
         (\<forall>k. k < length (vec b) \<and> k \<noteq> unat i div 64 \<longrightarrow>
            vec (snd (Set b i)) ! k = vec b ! k \<and> vec (snd (Clear b i)) ! k = vec b ! k) \<and>
         (\<forall>j. j \<noteq> i \<longrightarrow>
            Test (snd (Set b i)) j = Test b j \<and> Test (snd (Clear b i)) j = Test b j)"
proof -
  from assms have idx: "unat i div 64 < length (vec b)" by simp
  note S = Set_in_range[OF idx] and C = Clear_in_range[OF idx]
  have "Test (snd (Set b i)) j = Test b j \<and> Test (snd (Clear b i)) j = Test b j"
    if "j \<noteq> i" for j
  proof (cases "unat j div 64 = unat i div 64")
    case True
    from that have "unat j \<noteq> unat i" by (simp add: word_unat_eq_iff)
    with True have "unat j mod 64 \<noteq> unat i mod 64"
      using div_mod_eq_64 by blast
    with True S C show ?thesis
      by (simp add: Test_iff bit_set_self bit_clear_self)
  next
    case False
    with S have "lword (snd (Set b i)) (unat j div 64) = lword b (unat j div 64)"
      by (simp add: lword_def)
    moreover from False C
    have "lword (snd (Clear b i)) (unat j div 64) = lword b (unat j div 64)"
      by (simp add: lword_def)
    ultimately show ?thesis using S C
      by (simp add: Test_iff)
  qed
  with S C show ?thesis by blast
qed

theorem set_clear_frame_witness:
  "unat (70 :: uint) < 64 * length (vec \<lparr>vec = [3, 5], swap = True\<rparr>) \<and>
   vec (snd (Set \<lparr>vec = [3, 5], swap = True\<rparr> 70)) ! 0 = 3 \<and>
   vec (snd (Clear \<lparr>vec = [3, 5], swap = True\<rparr> 70)) ! 0 = 3 \<and>
   Test (snd (Set \<lparr>vec = [3, 5], swap = True\<rparr> 70)) 71 =
     Test \<lparr>vec = [3, 5], swap = True\<rparr> 71 \<and>
   Test (snd (Clear \<lparr>vec = [3, 5], swap = True\<rparr> 70)) 71 =
     Test \<lparr>vec = [3, 5], swap = True\<rparr> 71"
  using set_clear_frame [where i = 70 and b = "\<lparr>vec = [3, 5], swap = True\<rparr>"]
  by simp

section \<open>Shape of the vector\<close>

lemma Set_shape:
  "length (vec (snd (Set b i))) = length (vec b) \<and> swap (snd (Set b i)) = swap b"
  by (simp add: Set_def Let_def)

lemma Clear_shape:
  "length (vec (snd (Clear b i))) = length (vec b) \<and> swap (snd (Clear b i)) = swap b"
  by (simp add: Clear_def Let_def)

lemma apply_op_shape:
  "length (vec (apply_op b x)) = length (vec b) \<and> swap (apply_op b x) = swap b"
  by (cases x) (simp_all add: Set_shape Clear_shape)

text \<open>
  C9. Any sequence of calls of \<open>Test\<close>, \<open>Set\<close>, \<open>Clear\<close>, \<open>FindFirstOne\<close>,
  \<open>FindFirstZero\<close> and \<open>FindLastOne\<close> leaves the word count, hence the capacity, and the
  swap flag as they were.
\<close>

theorem ops_preserve_shape:
  "length (vec (foldl apply_op b xs)) = length (vec b) \<and> swap (foldl apply_op b xs) = swap b"
proof (induction xs arbitrary: b)
  case Nil
  show ?case by simp
next
  case (Cons x xs)
  show ?case using Cons.IH[of "apply_op b x"] apply_op_shape[of b x] by simp
qed

section \<open>Construction\<close>

lemma length_chunks8: "length (chunks8 n bs) = n"
  by (induction n arbitrary: bs) simp_all

text \<open>
  C7. \<open>New\<close> checks in this order: a length that is not a multiple of 8 gives
  \<open>ErrInvalidLength\<close>; otherwise a declared endianness that is neither Little nor Big
  gives \<open>ErrInvalidEndianness\<close>; otherwise a host endianness that is neither gives
  \<open>ErrUnsupportedArch\<close>; otherwise it succeeds, with \<open>length b div 8\<close> words and the swap
  flag set exactly when declared and host endianness differ.
\<close>

theorem New_validation:
  "(length b mod 8 \<noteq> 0 \<longrightarrow> New h b e = Inl ErrInvalidLength) \<and>
   (length b mod 8 = 0 \<and> e \<noteq> LittleEndian \<and> e \<noteq> BigEndian \<longrightarrow>
      New h b e = Inl ErrInvalidEndianness) \<and>
   (length b mod 8 = 0 \<and> (e = LittleEndian \<or> e = BigEndian) \<and>
      h \<noteq> LittleEndian \<and> h \<noteq> BigEndian \<longrightarrow> New h b e = Inl ErrUnsupportedArch) \<and>
   (length b mod 8 = 0 \<and> (e = LittleEndian \<or> e = BigEndian) \<and>
      (h = LittleEndian \<or> h = BigEndian) \<longrightarrow>
      (\<exists>v. New h b e = Inr v \<and> length (vec v) = length b div 8 \<and> swap v = (e \<noteq> h)))"
  by (auto simp add: New_def words_of_bytes_def length_chunks8 wordBytes_def)

theorem New_validation_witness:
  "New (OtherEndian 0) (replicate 7 0) (OtherEndian 1) = Inl ErrInvalidLength \<and>
   New (OtherEndian 0) (replicate 8 0) (OtherEndian 1) = Inl ErrInvalidEndianness \<and>
   New (OtherEndian 0) (replicate 8 0) BigEndian = Inl ErrUnsupportedArch \<and>
   (\<exists>v. New LittleEndian (replicate 8 0) BigEndian = Inr v \<and> length (vec v) = 1 \<and> swap v)"
  using New_validation [where b = "replicate 7 0" and h = "OtherEndian 0" and e = "OtherEndian 1"]
    New_validation [where b = "replicate 8 0" and h = "OtherEndian 0" and e = "OtherEndian 1"]
    New_validation [where b = "replicate 8 0" and h = "OtherEndian 0" and e = BigEndian]
    New_validation [where b = "replicate 8 0" and h = LittleEndian and e = BigEndian]
  by simp

section \<open>A concrete run\<close>

lemma run_New:
  "New LittleEndian (replicate 16 0) LittleEndian = Inr \<lparr>vec = [0, 0], swap = False\<rparr>"
  by code_simp

lemma run_Set:
  "Set \<lparr>vec = [0, 0], swap = False\<rparr> 9 = (True, \<lparr>vec = [512, 0], swap = False\<rparr>)"
  by code_simp

lemma run_Test9: "Test \<lparr>vec = [512, 0], swap = False\<rparr> 9"
  by code_simp

lemma run_Test8: "\<not> Test \<lparr>vec = [512, 0], swap = False\<rparr> 8"
  by code_simp

lemma run_FindFirstOne: "FindFirstOne \<lparr>vec = [512, 0], swap = False\<rparr> 0 = (9, True)"
  by code_simp

lemma run_FindFirstZero: "FindFirstZero \<lparr>vec = [512, 0], swap = False\<rparr> 9 = (10, True)"
  by code_simp

lemma run_FindLastOne: "FindLastOne \<lparr>vec = [512, 0], swap = False\<rparr> = (9, True)"
  by code_simp

text \<open>
  C8. On a buffer of 16 zero bytes, declared Little on a Little host (two words, no
  swap): after \<open>Set 9\<close>, \<open>Test 9\<close> is true, \<open>Test 8\<close> is false, \<open>FindFirstOne 0\<close> is 9,
  \<open>FindFirstZero 9\<close> is 10 and \<open>FindLastOne\<close> is 9.
\<close>

theorem concrete_scenario:
  "New LittleEndian (replicate 16 0) LittleEndian = Inr \<lparr>vec = [0, 0], swap = False\<rparr> \<and>
   fst (Set \<lparr>vec = [0, 0], swap = False\<rparr> 9) \<and>
   Test (snd (Set \<lparr>vec = [0, 0], swap = False\<rparr> 9)) 9 \<and>
   \<not> Test (snd (Set \<lparr>vec = [0, 0], swap = False\<rparr> 9)) 8 \<and>
   FindFirstOne (snd (Set \<lparr>vec = [0, 0], swap = False\<rparr> 9)) 0 = (9, True) \<and>
   FindFirstZero (snd (Set \<lparr>vec = [0, 0], swap = False\<rparr> 9)) 9 = (10, True) \<and>
   FindLastOne (snd (Set \<lparr>vec = [0, 0], swap = False\<rparr> 9)) = (9, True)"
  unfolding run_Set snd_conv fst_conv
  using run_New run_Test9 run_Test8 run_FindFirstOne run_FindFirstZero run_FindLastOne
  by blast

section \<open>Counting zero bits\<close>

lemma tz_le: "TrailingZeros64 x \<le> 64"
  unfolding TrailingZeros64_def
  using length_takeWhile_le[of "\<lambda>k. \<not> bit x k" "[0..<64]"] by simp

lemma tz_below: "k < TrailingZeros64 x \<Longrightarrow> \<not> bit x k"
proof -
  assume k: "k < TrailingZeros64 x"
  let ?P = "\<lambda>k. \<not> bit x k"
  from k have l: "k < length (takeWhile ?P [0..<64])" by (simp add: TrailingZeros64_def)
  then have "takeWhile ?P [0..<64] ! k \<in> set (takeWhile ?P [0..<64])" by (rule nth_mem)
  then have "?P (takeWhile ?P [0..<64] ! k)" by (rule set_takeWhileD[THEN conjunct2])
  moreover have "takeWhile ?P [0..<64] ! k = [0..<64] ! k" using l by (rule takeWhile_nth)
  moreover have "k < 64" using k tz_le[of x] by simp
  ultimately show ?thesis by simp
qed

lemma tz_bit: "TrailingZeros64 x < 64 \<Longrightarrow> bit x (TrailingZeros64 x)"
proof -
  assume a: "TrailingZeros64 x < 64"
  let ?P = "\<lambda>k. \<not> bit x k"
  from a have "length (takeWhile ?P [0..<64]) < length [0..<64]" by (simp add: TrailingZeros64_def)
  then have "\<not> ?P ([0..<64] ! length (takeWhile ?P [0..<64]))" by (rule nth_length_takeWhile)
  with a show ?thesis by (simp add: TrailingZeros64_def)
qed

lemma tz_nonzero: "x \<noteq> 0 \<Longrightarrow> TrailingZeros64 x < 64"
proof (rule ccontr)
  assume x: "x \<noteq> 0" and "\<not> TrailingZeros64 x < 64"
  with tz_le[of x] have "TrailingZeros64 x = 64" by simp
  then have "\<forall>k<64. \<not> bit x k" using tz_below[of _ x] by simp
  then have "x = 0" by (intro bit_word_eqI) simp
  with x show False by simp
qed

lemma lz_le: "LeadingZeros64 x \<le> 64"
  unfolding LeadingZeros64_def
  using length_takeWhile_le[of "\<lambda>k. \<not> bit x k" "rev [0..<64]"] by simp

lemma rev_upt_nth: "k < 64 \<Longrightarrow> rev [0..<64] ! k = 63 - k"
  by (simp add: rev_nth)

lemma lz_above: "k < LeadingZeros64 x \<Longrightarrow> \<not> bit x (63 - k)"
proof -
  assume k: "k < LeadingZeros64 x"
  let ?P = "\<lambda>k. \<not> bit x k"
  let ?xs = "rev [0..<64]"
  from k have l: "k < length (takeWhile ?P ?xs)" by (simp add: LeadingZeros64_def)
  then have "takeWhile ?P ?xs ! k \<in> set (takeWhile ?P ?xs)" by (rule nth_mem)
  then have 1: "\<not> bit x (takeWhile ?P ?xs ! k)" by (rule set_takeWhileD[THEN conjunct2])
  have 2: "takeWhile ?P ?xs ! k = ?xs ! k" using l by (rule takeWhile_nth)
  have "k < 64" using k lz_le[of x] by simp
  then have 3: "?xs ! k = 63 - k" by (rule rev_upt_nth)
  from 1 show ?thesis unfolding 2 3 .
qed

lemma lz_bit: "LeadingZeros64 x < 64 \<Longrightarrow> bit x (63 - LeadingZeros64 x)"
proof -
  assume a: "LeadingZeros64 x < 64"
  let ?P = "\<lambda>k. \<not> bit x k"
  let ?xs = "rev [0..<64]"
  from a have "length (takeWhile ?P ?xs) < length ?xs" by (simp add: LeadingZeros64_def)
  then have "\<not> ?P (?xs ! length (takeWhile ?P ?xs))" by (rule nth_length_takeWhile)
  then have "bit x (?xs ! LeadingZeros64 x)" by (simp only: LeadingZeros64_def not_not)
  then show ?thesis unfolding rev_upt_nth[OF a] .
qed

lemma lz_nonzero: "x \<noteq> 0 \<Longrightarrow> LeadingZeros64 x < 64"
proof (rule ccontr)
  assume x: "x \<noteq> 0" and "\<not> LeadingZeros64 x < 64"
  with lz_le[of x] have e: "LeadingZeros64 x = 64" by simp
  have "\<not> bit x k" if "k < 64" for k
  proof -
    from that e have "63 - k < LeadingZeros64 x" by simp
    from lz_above[OF this] that show ?thesis by simp
  qed
  then have "x = 0" by (intro bit_word_eqI) simp
  with x show False by simp
qed

section \<open>Scanning for a set bit\<close>

lemma length_lwords: "length (lwords b) = length (vec b)"
  by (simp add: lwords_def)

lemma lwords_nth: "k < length (vec b) \<Longrightarrow> lwords b ! k = lword b k"
  by (simp add: lwords_def lword_def)

lemma Test_wbit: "Test b i = wbit (lwords b) (unat i)"
  by (auto simp add: Test_iff wbit_def length_lwords lwords_nth)

lemma unat_word_index:
  assumes "m < 2 ^ 58" and "t < 64"
  shows "unat (of_nat m * wordSize + of_nat t :: uint) = 64 * m + t"
proof -
  have e: "(of_nat m * wordSize + of_nat t :: uint) = of_nat (64 * m + t)"
    by (simp add: wordSize_def)
  from assms have "64 * m + t < 2 ^ LENGTH(64)" by simp
  then have "(64 * m + t) mod 2 ^ LENGTH(64) = 64 * m + t" by (rule mod_less)
  then show ?thesis unfolding e unat_of_nat .
qed

lemma unat_add_small:
  assumes "unat (i::uint) mod 64 + t < 64"
  shows "unat (i + of_nat t) = unat i + t"
proof -
  have "unat i < 2 ^ 64" using unsigned_less[of i] by simp
  then have "unat i div 64 < 2 ^ 58" by simp
  then have "64 * (unat i div 64) + 64 \<le> 2 ^ 64" by simp
  moreover have "unat i + t = 64 * (unat i div 64) + (unat i mod 64 + t)" by simp
  ultimately have lt: "unat i + t < 2 ^ 64" using assms by linarith
  then have "t < 2 ^ 64" by simp
  then have t: "unat (of_nat t :: uint) = t" by (simp add: unat_of_nat)
  from lt t have "unat i + unat (of_nat t :: uint) < 2 ^ LENGTH(64)" by simp
  then have "unat (i + of_nat t) = unat i + unat (of_nat t :: uint)"
    by (simp only: unat_add_lem)
  with t show ?thesis by simp
qed

lemma div_mod_block:
  "t < 64 \<Longrightarrow> (64 * m + t) div 64 = m \<and> (64 * m + t) mod 64 = (t::nat)"
  by simp

lemma in_block: "64 * m \<le> n \<Longrightarrow> n < 64 * m + 64 \<Longrightarrow> n div 64 = (m::nat)"
  by (simp add: div_nat_eqI mult.commute)

declare ffo_loop.simps [simp del] ffo_loop_swap.simps [simp del]
  ffz_loop.simps [simp del] ffz_loop_swap.simps [simp del]

lemma ffo_loop_swap_eq: "ffo_loop_swap ws idx = ffo_loop (map swapUint64 ws) idx"
proof (induction ws idx rule: ffo_loop_swap.induct)
  case (1 ws idx)
  show ?case
    by (subst ffo_loop_swap.simps, subst ffo_loop.simps) (use 1 in \<open>simp add: swap_eq_0\<close>)
qed

lemma ffo_loop_spec:
  assumes len: "length ws \<le> 2 ^ 58"
  shows "(snd (ffo_loop ws idx) \<longrightarrow>
            64 * idx \<le> unat (fst (ffo_loop ws idx)) \<and> wbit ws (unat (fst (ffo_loop ws idx))) \<and>
            (\<forall>n. 64 * idx \<le> n \<and> n < unat (fst (ffo_loop ws idx)) \<longrightarrow> \<not> wbit ws n)) \<and>
         (\<not> snd (ffo_loop ws idx) \<longrightarrow>
            fst (ffo_loop ws idx) = 0 \<and> (\<forall>n. 64 * idx \<le> n \<longrightarrow> \<not> wbit ws n))"
  using len
proof (induction ws idx rule: ffo_loop.induct)
  case (1 ws idx)
  note len = \<open>length ws \<le> 2 ^ 58\<close>
  show ?case
  proof (cases "idx < length ws")
    case False
    then have r: "ffo_loop ws idx = (0, False)" by (subst ffo_loop.simps) simp
    have "\<not> wbit ws n" if "64 * idx \<le> n" for n
    proof -
      from that have "idx \<le> n div 64" by simp
      with False show ?thesis by (simp add: wbit_def)
    qed
    with r show ?thesis by simp
  next
    case True
    show ?thesis
    proof (cases "ws ! idx = 0")
      case z: True
      with True have r: "ffo_loop ws idx = ffo_loop ws (Suc idx)"
        by (subst ffo_loop.simps) simp
      have blk: "\<not> wbit ws n" if "64 * idx \<le> n" "n < 64 * Suc idx" for n
      proof -
        from that have "n div 64 = idx" by (simp add: in_block)
        with z show ?thesis by (simp add: wbit_def)
      qed
      from z have "\<not> ws ! idx \<noteq> 0" by simp
      note IH = "1.IH"[OF True this len]
      show ?thesis unfolding r
      proof (intro conjI impI allI)
        assume s: "snd (ffo_loop ws (Suc idx))"
        with IH show "64 * idx \<le> unat (fst (ffo_loop ws (Suc idx)))" by simp
        from s IH show "wbit ws (unat (fst (ffo_loop ws (Suc idx))))" by simp
        fix n assume "64 * idx \<le> n \<and> n < unat (fst (ffo_loop ws (Suc idx)))"
        with s IH blk[of n] show "\<not> wbit ws n"
          by (cases "n < 64 * Suc idx") simp_all
      next
        assume s: "\<not> snd (ffo_loop ws (Suc idx))"
        with IH show "fst (ffo_loop ws (Suc idx)) = 0" by simp
        fix n assume "64 * idx \<le> n"
        with s IH blk[of n] show "\<not> wbit ws n"
          by (cases "n < 64 * Suc idx") simp_all
      qed
    next
      case nz: False
      let ?t = "TrailingZeros64 (ws ! idx)"
      from nz have t: "?t < 64" by (rule tz_nonzero)
      from True nz have r: "ffo_loop ws idx = (of_nat idx * wordSize + of_nat ?t, True)"
        by (subst ffo_loop.simps) simp
      from True len have "idx < 2 ^ 58" by (rule less_le_trans)
      then have u: "unat (of_nat idx * wordSize + of_nat ?t :: uint) = 64 * idx + ?t"
        using t by (rule unat_word_index)
      have "wbit ws (64 * idx + ?t)"
        using True t tz_bit[OF t] by (simp add: wbit_def)
      moreover have "\<not> wbit ws n" if "64 * idx \<le> n" "n < 64 * idx + ?t" for n
      proof -
        from that t have d: "n div 64 = idx" by (simp add: in_block)
        have "n = 64 * (n div 64) + n mod 64" by simp
        with d that have "n mod 64 < ?t" by linarith
        then have "\<not> bit (ws ! idx) (n mod 64)" by (rule tz_below)
        with d show ?thesis by (simp add: wbit_def)
      qed
      ultimately show ?thesis unfolding r by (simp add: u)
    qed
  qed
qed

lemma FindFirstOne_lwords:
  "FindFirstOne b i =
     (if length (vec b) \<le> unat i div 64 then (0, False)
      else if drop_bit (unat i mod 64) (lwords b ! (unat i div 64)) \<noteq> 0
        then (i + of_nat (TrailingZeros64 (drop_bit (unat i mod 64) (lwords b ! (unat i div 64)))), True)
        else ffo_loop (lwords b) (Suc (unat i div 64)))"
  by (auto simp add: FindFirstOne_def Let_def unat_idx unat_off lwords_def ffo_loop_swap_eq)

lemma unat_split64: "unat (i::uint) = 64 * (unat i div 64) + unat i mod 64"
  by simp

lemma wbit_same_word:
  "q < length ws \<Longrightarrow> r + d < 64 \<Longrightarrow> wbit ws (64 * q + r + d) = bit (drop_bit r (ws ! q)) d"
proof -
  assume q: "q < length ws" and rd: "r + d < 64"
  have e: "64 * q + r + d = 64 * q + (r + d)" by simp
  show ?thesis using q rd unfolding e by (simp add: wbit_def bit_simps)
qed

lemma block_offset:
  fixes a n :: nat
  assumes "a \<le> n" and "n < 64 * Suc (a div 64)"
  shows "a mod 64 + (n - a) < 64"
proof -
  define q r where "q = a div 64" and "r = a mod 64"
  have "a = 64 * q + r" by (simp add: q_def r_def)
  moreover from assms(2) have "n < 64 * q + 64" by (simp add: q_def)
  ultimately have "r + (n - a) < 64" using assms(1) by arith
  then show ?thesis by (simp add: r_def)
qed

lemma FindFirstOne_nat:
  assumes len: "length (vec b) \<le> 2 ^ 58"
  shows "(snd (FindFirstOne b i) \<longrightarrow>
            unat i \<le> unat (fst (FindFirstOne b i)) \<and>
            wbit (lwords b) (unat (fst (FindFirstOne b i))) \<and>
            (\<forall>n. unat i \<le> n \<and> n < unat (fst (FindFirstOne b i)) \<longrightarrow> \<not> wbit (lwords b) n)) \<and>
         (\<not> snd (FindFirstOne b i) \<longrightarrow>
            fst (FindFirstOne b i) = 0 \<and> (\<forall>n. unat i \<le> n \<longrightarrow> \<not> wbit (lwords b) n))"
proof -
  let ?q = "unat i div 64" and ?r = "unat i mod 64"
  let ?ws = "lwords b"
  let ?v = "drop_bit ?r (?ws ! ?q)"
  have r64: "?r < 64" by simp
  have ui: "unat i = 64 * ?q + ?r" by simp
  show ?thesis
  proof (cases "length (vec b) \<le> ?q")
    case True
    then have R: "FindFirstOne b i = (0, False)" by (simp add: FindFirstOne_lwords)
    have "\<not> wbit ?ws n" if "unat i \<le> n" for n
    proof -
      from that have "?q \<le> n div 64" by (rule div_le_mono)
      with True show ?thesis by (simp add: wbit_def length_lwords)
    qed
    with R show ?thesis by simp
  next
    case False
    then have q: "?q < length ?ws" by (simp add: length_lwords)
    show ?thesis
    proof (cases "?v = 0")
      case nz: False
      let ?t = "TrailingZeros64 ?v"
      from False nz have R: "FindFirstOne b i = (i + of_nat ?t, True)"
        by (simp add: FindFirstOne_lwords)
      from nz have t: "?t < 64" by (rule tz_nonzero)
      then have bt: "bit ?v ?t" by (rule tz_bit)
      then have "bit (?ws ! ?q) (?r + ?t)" by (simp add: bit_simps)
      then have rt: "?r + ?t < 64" by (rule bit64)
      then have u: "unat (i + of_nat ?t) = unat i + ?t" by (rule unat_add_small)
      have "wbit ?ws (64 * ?q + ?r + ?t)"
        using wbit_same_word[OF q rt] bt by simp
      then have 1: "wbit ?ws (unat i + ?t)" by simp
      have 2: "\<not> wbit ?ws n" if "unat i \<le> n" "n < unat i + ?t" for n
      proof -
        define d where "d = n - unat i"
        with that have n: "n = 64 * ?q + ?r + d" and d: "d < ?t" by simp_all
        from d rt have "?r + d < 64" by simp
        from wbit_same_word[OF q this] tz_below[OF d] n show ?thesis by simp
      qed
      from 1 2 show ?thesis unfolding R by (simp add: u)
    next
      case z: True
      with False have R: "FindFirstOne b i = ffo_loop ?ws (Suc ?q)"
        by (simp add: FindFirstOne_lwords)
      have blk: "\<not> wbit ?ws n" if "unat i \<le> n" "n < 64 * Suc ?q" for n
      proof -
        define d where "d = n - unat i"
        with that have n: "n = 64 * ?q + ?r + d" by simp
        from that have "?r + d < 64" unfolding d_def by (rule block_offset)
        from wbit_same_word[OF q this] z n show ?thesis by simp
      qed
      from len have "length ?ws \<le> 2 ^ 58" by (simp add: length_lwords)
      note L = ffo_loop_spec[OF this, of "Suc ?q"]
      have le: "unat i \<le> 64 * Suc ?q" by simp
      show ?thesis unfolding R
      proof (intro conjI impI allI)
        assume s: "snd (ffo_loop ?ws (Suc ?q))"
        with L le show "unat i \<le> unat (fst (ffo_loop ?ws (Suc ?q)))" by linarith
        from s L show "wbit ?ws (unat (fst (ffo_loop ?ws (Suc ?q))))" by simp
        fix n assume "unat i \<le> n \<and> n < unat (fst (ffo_loop ?ws (Suc ?q)))"
        with s L blk[of n] show "\<not> wbit ?ws n"
          by (cases "n < 64 * Suc ?q") simp_all
      next
        assume s: "\<not> snd (ffo_loop ?ws (Suc ?q))"
        with L show "fst (ffo_loop ?ws (Suc ?q)) = 0" by simp
        fix n assume "unat i \<le> n"
        with s L blk[of n] show "\<not> wbit ?ws n"
          by (cases "n < 64 * Suc ?q") simp_all
      qed
    qed
  qed
qed

text \<open>
  C3. For every vector (either swap flag) whose capacity \<open>64 * word count\<close> fits in a
  \<open>uint\<close>, and every start index \<open>i\<close>: when \<open>FindFirstOne i\<close> reports a bit, it is the
  smallest index \<open>j \<ge> i\<close> with \<open>Test j\<close> true; when it reports "not found" (the pair
  \<open>(0, false)\<close>), no index from \<open>i\<close> on has \<open>Test\<close> true; and it reports "not found"
  when the word index of \<open>i\<close> is at or past the word count.
\<close>

theorem FindFirstOne_correct:
  assumes "length (vec b) \<le> 2 ^ 58"
  shows "(snd (FindFirstOne b i) \<longrightarrow>
            i \<le> fst (FindFirstOne b i) \<and> Test b (fst (FindFirstOne b i)) \<and>
            (\<forall>k. i \<le> k \<and> k < fst (FindFirstOne b i) \<longrightarrow> \<not> Test b k)) \<and>
         (\<not> snd (FindFirstOne b i) \<longrightarrow>
            fst (FindFirstOne b i) = 0 \<and> (\<forall>k. i \<le> k \<longrightarrow> \<not> Test b k)) \<and>
         (length (vec b) \<le> unat i div 64 \<longrightarrow> FindFirstOne b i = (0, False))"
  using FindFirstOne_nat[OF assms, of i]
  by (simp add: Test_wbit word_le_nat_alt word_less_nat_alt FindFirstOne_lwords)

lemma run_FindFirstOne_swap:
  "FindFirstOne \<lparr>vec = [0, 5], swap = True\<rparr> 3 = (120, True)"
  by code_simp

theorem FindFirstOne_correct_witness:
  "length (vec \<lparr>vec = [0, 5], swap = True\<rparr>) \<le> 2 ^ 58 \<and>
   FindFirstOne \<lparr>vec = [0, 5], swap = True\<rparr> 3 = (120, True) \<and>
   Test \<lparr>vec = [0, 5], swap = True\<rparr> 120 \<and>
   \<not> Test \<lparr>vec = [0, 5], swap = True\<rparr> 100"
proof -
  have h: "length (vec \<lparr>vec = [0, 5], swap = True\<rparr>) \<le> 2 ^ 58" by simp
  have o: "(3 :: uint) \<le> 100 \<and> (100 :: uint) < 120" by simp
  from FindFirstOne_correct [OF h, of 3] o h show ?thesis
    unfolding run_FindFirstOne_swap fst_conv snd_conv by blast
qed

section \<open>Scanning for a clear bit\<close>

lemma tz_unique:
  assumes "bit x k" and "\<forall>j<k. \<not> bit x j"
  shows "TrailingZeros64 x = k"
proof -
  from assms(1) have "x \<noteq> 0" by auto
  then have t: "TrailingZeros64 x < 64" by (rule tz_nonzero)
  then have b: "bit x (TrailingZeros64 x)" by (rule tz_bit)
  have "\<not> TrailingZeros64 x < k" using assms(2) b by blast
  moreover have "\<not> k < TrailingZeros64 x" using tz_below[of k x] assms(1) by blast
  ultimately show ?thesis by simp
qed

lemma NOT_eq_0: "NOT (w::uint64) = 0 \<longleftrightarrow> w = allBits"
proof -
  have "allBits = NOT 0" by (simp add: allBits_def)
  then show ?thesis by (metis bit.double_compl)
qed

lemma ffz_loop_swap_eq: "ffz_loop_swap ws idx = ffz_loop (map swapUint64 ws) idx"
proof (induction ws idx rule: ffz_loop_swap.induct)
  case (1 ws idx)
  show ?case
    by (subst ffz_loop_swap.simps, subst ffz_loop.simps) (use 1 in \<open>simp add: swap_eq_allBits\<close>)
qed

lemma ffz_loop_eq: "ffz_loop ws idx = ffo_loop (map NOT ws) idx"
proof (induction ws idx rule: ffz_loop.induct)
  case (1 ws idx)
  show ?case
    by (subst ffz_loop.simps, subst ffo_loop.simps) (use 1 in \<open>simp add: NOT_eq_0\<close>)
qed

lemma trail_cmp:
  assumes "t \<le> 64"
  shows "(of_nat t :: uint) < wordSize - (i AND (wordSize - 1)) \<longleftrightarrow> t < 64 - unat i mod 64"
proof -
  from assms have "t < 2 ^ LENGTH(64)" by simp
  then have t: "unat (of_nat t :: uint) = t" by (simp add: unat_of_nat)
  have r: "unat (i AND (wordSize - 1)) = unat i mod 64" by (rule unat_off)
  have w: "unat wordSize = 64" by (simp add: wordSize_def)
  have "i AND (wordSize - 1) \<le> wordSize" by (simp add: word_le_nat_alt r w)
  then have "unat (wordSize - (i AND (wordSize - 1))) = 64 - unat i mod 64"
    by (simp add: unat_sub r w)
  with t show ?thesis by (simp add: word_less_nat_alt)
qed

lemma FindFirstZero_lwords:
  "FindFirstZero b i =
     (if length (vec b) \<le> unat i div 64 then (0, False)
      else if TrailingZeros64 (NOT (drop_bit (unat i mod 64) (lwords b ! (unat i div 64))))
              < 64 - unat i mod 64
        then (i + of_nat (TrailingZeros64
                (NOT (drop_bit (unat i mod 64) (lwords b ! (unat i div 64))))), True)
        else ffo_loop (map NOT (lwords b)) (Suc (unat i div 64)))"
  by (auto simp add: FindFirstZero_def Let_def unat_idx trail_cmp[OF tz_le] unat_off
      lwords_def ffz_loop_swap_eq ffz_loop_eq)

lemma first_word_complement:
  fixes w :: uint64
  assumes r: "r < 64"
  shows "(TrailingZeros64 (NOT (drop_bit r w)) < 64 - r \<longleftrightarrow> drop_bit r (NOT w) \<noteq> 0) \<and>
         (drop_bit r (NOT w) \<noteq> 0 \<longrightarrow>
            TrailingZeros64 (NOT (drop_bit r w)) = TrailingZeros64 (drop_bit r (NOT w)))"
proof -
  let ?x = "NOT (drop_bit r w)" and ?y = "drop_bit r (NOT w)"
  have x: "bit ?x d \<longleftrightarrow> d < 64 \<and> \<not> bit w (r + d)" for d
    by (simp add: bit_simps)
  have y: "bit ?y d \<longleftrightarrow> r + d < 64 \<and> \<not> bit w (r + d)" for d
    by (simp add: bit_simps)
  have xy: "bit ?x d = bit ?y d" if "d < 64 - r" for d
    using that by (auto simp add: x y)
  have 1: "?y \<noteq> 0 \<and> TrailingZeros64 ?x = TrailingZeros64 ?y" if a: "TrailingZeros64 ?x < 64 - r"
  proof -
    from a have "TrailingZeros64 ?x < 64" by simp
    then have "bit ?x (TrailingZeros64 ?x)" by (rule tz_bit)
    with xy[OF a] have hb: "bit ?y (TrailingZeros64 ?x)" by simp
    then have "?y \<noteq> 0" by auto
    moreover have "\<forall>j<TrailingZeros64 ?x. \<not> bit ?y j"
    proof (intro allI impI)
      fix j assume j: "j < TrailingZeros64 ?x"
      with a have "j < 64 - r" by simp
      from xy[OF this] tz_below[OF j] show "\<not> bit ?y j" by simp
    qed
    with hb have "TrailingZeros64 ?y = TrailingZeros64 ?x" by (rule tz_unique)
    ultimately show ?thesis by simp
  qed
  have 2: "TrailingZeros64 ?x < 64 - r" if a: "?y \<noteq> 0"
  proof -
    from a have t: "TrailingZeros64 ?y < 64" by (rule tz_nonzero)
    then have hb: "bit ?y (TrailingZeros64 ?y)" by (rule tz_bit)
    then have "r + TrailingZeros64 ?y < 64" unfolding y by (rule conjunct1)
    then have lt: "TrailingZeros64 ?y < 64 - r" by simp
    from hb xy[OF lt] have "bit ?x (TrailingZeros64 ?y)" by simp
    moreover have "\<forall>j<TrailingZeros64 ?y. \<not> bit ?x j"
    proof (intro allI impI)
      fix j assume j: "j < TrailingZeros64 ?y"
      with lt have "j < 64 - r" by simp
      from xy[OF this] tz_below[OF j] show "\<not> bit ?x j" by simp
    qed
    ultimately have "TrailingZeros64 ?x = TrailingZeros64 ?y" by (rule tz_unique)
    with lt show ?thesis by simp
  qed
  from 1 2 show ?thesis by blast
qed

lemma FindFirstZero_complement:
  "FindFirstZero b i = FindFirstOne \<lparr>vec = map NOT (lwords b), swap = False\<rparr> i"
proof -
  let ?b' = "\<lparr>vec = map NOT (lwords b), swap = False\<rparr>"
  have lw: "lwords ?b' = map NOT (lwords b)" by (simp add: lwords_def)
  have r: "unat i mod 64 < 64" by simp
  show ?thesis
  proof (cases "length (vec b) \<le> unat i div 64")
    case True
    then show ?thesis
      by (simp add: FindFirstZero_lwords FindFirstOne_lwords length_lwords)
  next
    case False
    then have "unat i div 64 < length (lwords b)" by (simp add: length_lwords)
    then have n: "map NOT (lwords b) ! (unat i div 64) = NOT (lwords b ! (unat i div 64))"
      by (rule nth_map)
    from False first_word_complement[OF r, of "lwords b ! (unat i div 64)"] show ?thesis
      unfolding FindFirstZero_lwords FindFirstOne_lwords lw n
      by (auto simp add: length_lwords)
  qed
qed

lemma wbit_map_NOT: "wbit (map NOT ws) n \<longleftrightarrow> n < 64 * length ws \<and> \<not> wbit ws n"
proof (cases "n div 64 < length ws")
  case True
  then have "n < 64 * length ws" by (simp add: less_mult_imp_div_less div_less_iff_less_mult mult.commute)
  with True show ?thesis by (simp add: wbit_def bit_simps)
next
  case False
  then have "\<not> n < 64 * length ws" by (simp add: div_less_iff_less_mult mult.commute)
  with False show ?thesis by (simp add: wbit_def)
qed

text \<open>
  C4. For every vector (either swap flag) whose capacity fits in a \<open>uint\<close>, and every
  start index \<open>i\<close>: when \<open>FindFirstZero i\<close> reports a bit, it is the smallest index
  \<open>j \<ge> i\<close> with \<open>Test j\<close> false, and it lies below the capacity; when it reports
  "not found", every bit from \<open>i\<close> up to the capacity is set, so a vector of 1-bits
  only gives "not found" and never an index at or past the capacity; and it reports
  "not found" when the word index of \<open>i\<close> is at or past the word count.
\<close>

theorem FindFirstZero_correct:
  assumes "length (vec b) \<le> 2 ^ 58"
  shows "(snd (FindFirstZero b i) \<longrightarrow>
            i \<le> fst (FindFirstZero b i) \<and> unat (fst (FindFirstZero b i)) < 64 * length (vec b) \<and>
            \<not> Test b (fst (FindFirstZero b i)) \<and>
            (\<forall>k. i \<le> k \<and> k < fst (FindFirstZero b i) \<longrightarrow> Test b k)) \<and>
         (\<not> snd (FindFirstZero b i) \<longrightarrow>
            fst (FindFirstZero b i) = 0 \<and>
            (\<forall>k. i \<le> k \<and> unat k < 64 * length (vec b) \<longrightarrow> Test b k)) \<and>
         (length (vec b) \<le> unat i div 64 \<longrightarrow> FindFirstZero b i = (0, False))"
proof -
  let ?b' = "\<lparr>vec = map NOT (lwords b), swap = False\<rparr>"
  let ?R = "FindFirstOne ?b' i"
  have lw: "lwords ?b' = map NOT (lwords b)" by (simp add: lwords_def)
  from assms have "length (vec ?b') \<le> 2 ^ 58" by (simp add: length_lwords)
  note N = FindFirstOne_nat[OF this, of i, unfolded lw wbit_map_NOT length_lwords]
  have 1: "i \<le> fst ?R \<and> unat (fst ?R) < 64 * length (vec b) \<and> \<not> Test b (fst ?R) \<and>
        (\<forall>k. i \<le> k \<and> k < fst ?R \<longrightarrow> Test b k)" if s: "snd ?R"
  proof -
    from N s have a: "unat i \<le> unat (fst ?R)" "unat (fst ?R) < 64 * length (vec b)"
      "\<not> wbit (lwords b) (unat (fst ?R))"
      and m: "\<forall>n. unat i \<le> n \<and> n < unat (fst ?R) \<longrightarrow> \<not> (n < 64 * length (vec b) \<and> \<not> wbit (lwords b) n)"
      by simp_all
    have "Test b k" if "i \<le> k" "k < fst ?R" for k
    proof -
      from that have "unat i \<le> unat k" "unat k < unat (fst ?R)"
        by (simp_all add: word_le_nat_alt word_less_nat_alt)
      with m a(2) show ?thesis by (simp add: Test_wbit)
    qed
    with a show ?thesis by (simp add: Test_wbit word_le_nat_alt)
  qed
  have 2: "fst ?R = 0 \<and> (\<forall>k. i \<le> k \<and> unat k < 64 * length (vec b) \<longrightarrow> Test b k)" if s: "\<not> snd ?R"
    using N s by (simp add: Test_wbit word_le_nat_alt)
  have 3: "FindFirstZero b i = (0, False)" if "length (vec b) \<le> unat i div 64"
    using that by (simp add: FindFirstZero_lwords)
  from 1 2 3 show ?thesis unfolding FindFirstZero_complement by blast
qed

lemma run_FindFirstZero_full:
  "FindFirstZero \<lparr>vec = [0xffffffffffffffff, 5], swap = False\<rparr> 3 = (65, True)"
  by code_simp

theorem FindFirstZero_correct_witness:
  "length (vec \<lparr>vec = [0xffffffffffffffff, 5], swap = False\<rparr>) \<le> 2 ^ 58 \<and>
   FindFirstZero \<lparr>vec = [0xffffffffffffffff, 5], swap = False\<rparr> 3 = (65, True) \<and>
   \<not> Test \<lparr>vec = [0xffffffffffffffff, 5], swap = False\<rparr> 65 \<and>
   Test \<lparr>vec = [0xffffffffffffffff, 5], swap = False\<rparr> 64"
proof -
  have h: "length (vec \<lparr>vec = [0xffffffffffffffff, 5], swap = False\<rparr>) \<le> 2 ^ 58" by simp
  have o: "(3 :: uint) \<le> 64 \<and> (64 :: uint) < 65" by simp
  from FindFirstZero_correct [OF h, of 3] o h show ?thesis
    unfolding run_FindFirstZero_full fst_conv snd_conv by blast
qed

section \<open>The last set bit\<close>

lemma flo_loop_swap_eq:
  "k \<le> length ws \<Longrightarrow> flo_loop_swap ws k = flo_loop (map swapUint64 ws) k"
  by (induction k) (simp_all add: Let_def swap_eq_0)

lemma flo_loop_spec:
  "(snd (flo_loop ws k) \<longrightarrow>
      (\<exists>m<k. ws ! m \<noteq> 0 \<and> (\<forall>m'. m < m' \<and> m' < k \<longrightarrow> ws ! m' = 0) \<and>
         fst (flo_loop ws k) = of_nat (Suc m) * wordSize - of_nat (LeadingZeros64 (ws ! m)) - 1)) \<and>
   (\<not> snd (flo_loop ws k) \<longrightarrow> fst (flo_loop ws k) = 0 \<and> (\<forall>m<k. ws ! m = 0))"
proof (induction k)
  case 0
  show ?case by simp
next
  case (Suc k)
  show ?case
  proof (cases "ws ! k = 0")
    case False
    then have R: "flo_loop ws (Suc k) =
        (of_nat (Suc k) * wordSize - of_nat (LeadingZeros64 (ws ! k)) - 1, True)"
      by (simp add: Let_def)
    have "k < Suc k \<and> ws ! k \<noteq> 0 \<and> (\<forall>m'. k < m' \<and> m' < Suc k \<longrightarrow> ws ! m' = 0)"
      using False by auto
    then show ?thesis unfolding R by (intro conjI impI exI[of _ k]) simp_all
  next
    case True
    then have R: "flo_loop ws (Suc k) = flo_loop ws k" by (simp add: Let_def)
    show ?thesis unfolding R
    proof (intro conjI impI)
      assume "snd (flo_loop ws k)"
      with Suc obtain m where m: "m < k" "ws ! m \<noteq> 0" "\<forall>m'. m < m' \<and> m' < k \<longrightarrow> ws ! m' = 0"
        "fst (flo_loop ws k) = of_nat (Suc m) * wordSize - of_nat (LeadingZeros64 (ws ! m)) - 1"
        by blast
      from m(3) True have "\<forall>m'. m < m' \<and> m' < Suc k \<longrightarrow> ws ! m' = 0"
        using less_Suc_eq by auto
      with m show "\<exists>m<Suc k. ws ! m \<noteq> 0 \<and> (\<forall>m'. m < m' \<and> m' < Suc k \<longrightarrow> ws ! m' = 0) \<and>
         fst (flo_loop ws k) = of_nat (Suc m) * wordSize - of_nat (LeadingZeros64 (ws ! m)) - 1"
        by (intro exI[of _ m]) simp
    next
      assume "\<not> snd (flo_loop ws k)"
      with Suc show "fst (flo_loop ws k) = 0" by simp
    next
      assume "\<not> snd (flo_loop ws k)"
      with Suc have "\<forall>m<k. ws ! m = 0" by simp
      with True show "\<forall>m<Suc k. ws ! m = 0" using less_Suc_eq by auto
    qed
  qed
qed

lemma FindLastOne_lwords: "FindLastOne b = flo_loop (lwords b) (length (vec b))"
  by (simp add: FindLastOne_def lwords_def flo_loop_swap_eq)

lemma msb_index:
  assumes "lz < 64"
  shows "(of_nat (Suc m) * wordSize - of_nat lz - 1 :: uint) = of_nat m * wordSize + of_nat (63 - lz)"
proof -
  from assms have "(of_nat (63 - lz) :: uint) = 63 - of_nat lz" by (simp add: of_nat_diff)
  then show ?thesis by (simp add: wordSize_def algebra_simps)
qed

lemma lz_high:
  assumes "63 - LeadingZeros64 x < k"
  shows "\<not> bit x k"
proof (cases "k < 64")
  case False
  then show ?thesis using bit64 by blast
next
  case True
  with assms have "63 - k < LeadingZeros64 x" by simp
  from lz_above[OF this] True show ?thesis by simp
qed

lemma FindLastOne_nat:
  assumes len: "length ws \<le> 2 ^ 58"
  shows "(snd (flo_loop ws (length ws)) \<longrightarrow>
           (\<exists>m<length ws. ws ! m \<noteq> 0 \<and> (\<forall>m'. m < m' \<and> m' < length ws \<longrightarrow> ws ! m' = 0) \<and>
              fst (flo_loop ws (length ws)) =
                of_nat m * wordSize + of_nat (63 - LeadingZeros64 (ws ! m))) \<and>
           wbit ws (unat (fst (flo_loop ws (length ws)))) \<and>
           (\<forall>n. unat (fst (flo_loop ws (length ws))) < n \<longrightarrow> \<not> wbit ws n)) \<and>
         (\<not> snd (flo_loop ws (length ws)) \<longrightarrow>
           fst (flo_loop ws (length ws)) = 0 \<and> (\<forall>m<length ws. ws ! m = 0) \<and>
           (\<forall>n. \<not> wbit ws n))"
proof (intro conjI impI)
  let ?R = "flo_loop ws (length ws)"
  note S = flo_loop_spec[of ws "length ws"]
  {
    assume "snd ?R"
    with S obtain m where m: "m < length ws" "ws ! m \<noteq> 0"
      "\<forall>m'. m < m' \<and> m' < length ws \<longrightarrow> ws ! m' = 0"
      "fst ?R = of_nat (Suc m) * wordSize - of_nat (LeadingZeros64 (ws ! m)) - 1"
      by blast
    let ?lz = "LeadingZeros64 (ws ! m)"
    from m(2) have lz: "?lz < 64" by (rule lz_nonzero)
    from m(4) msb_index[OF lz] have j: "fst ?R = of_nat m * wordSize + of_nat (63 - ?lz)"
      by simp
    from m(1) len have "m < 2 ^ 58" by (rule less_le_trans)
    moreover have t: "63 - ?lz < 64" by simp
    ultimately have u: "unat (fst ?R) = 64 * m + (63 - ?lz)"
      unfolding j by (rule unat_word_index)
    from m j show "\<exists>m<length ws. ws ! m \<noteq> 0 \<and> (\<forall>m'. m < m' \<and> m' < length ws \<longrightarrow> ws ! m' = 0) \<and>
              fst ?R = of_nat m * wordSize + of_nat (63 - LeadingZeros64 (ws ! m))"
      by blast
    from m(1) lz_bit[OF lz] t show "wbit ws (unat (fst ?R))"
      unfolding u by (simp add: wbit_def)
    show "\<forall>n. unat (fst ?R) < n \<longrightarrow> \<not> wbit ws n"
    proof (intro allI impI)
      fix n assume "unat (fst ?R) < n"
      then have n: "64 * m + (63 - ?lz) < n" by (simp only: u)
      have split: "n = 64 * (n div 64) + n mod 64" by simp
      from n have ge: "m \<le> n div 64" by simp
      show "\<not> wbit ws n"
      proof (cases "n div 64 = m")
        case True
        with n split have "63 - ?lz < n mod 64" by linarith
        then have "\<not> bit (ws ! m) (n mod 64)" by (rule lz_high)
        with True show ?thesis by (simp add: wbit_def)
      next
        case False
        with ge have "m < n div 64" by simp
        with m(3) show ?thesis by (auto simp add: wbit_def)
      qed
    qed
  }
  {
    assume "\<not> snd ?R"
    with S have z: "fst ?R = 0" "\<forall>m<length ws. ws ! m = 0" by simp_all
    from z show "fst ?R = 0" by simp
    from z show "\<forall>m<length ws. ws ! m = 0" by simp
    from z show "\<forall>n. \<not> wbit ws n" by (simp add: wbit_def)
  }
qed

text \<open>
  C5. For every vector (either swap flag) whose capacity fits in a \<open>uint\<close>: when
  \<open>FindLastOne\<close> reports a bit, it is \<open>m * 64 + (63 - LeadingZeros64 w)\<close> for the
  highest-indexed nonzero word \<open>w\<close>, at index \<open>m\<close>, read after the swap, and it is the
  largest index with \<open>Test\<close> true; it reports "not found" exactly when every word is
  zero, and then no index has \<open>Test\<close> true.
\<close>

theorem FindLastOne_correct:
  assumes "length (vec b) \<le> 2 ^ 58"
  shows "(snd (FindLastOne b) \<longrightarrow>
           (\<exists>m<length (vec b). lword b m \<noteq> 0 \<and>
              (\<forall>m'. m < m' \<and> m' < length (vec b) \<longrightarrow> lword b m' = 0) \<and>
              fst (FindLastOne b) =
                of_nat m * wordSize + of_nat (63 - LeadingZeros64 (lword b m))) \<and>
           Test b (fst (FindLastOne b)) \<and>
           (\<forall>k. fst (FindLastOne b) < k \<longrightarrow> \<not> Test b k)) \<and>
         (\<not> snd (FindLastOne b) \<longrightarrow>
           fst (FindLastOne b) = 0 \<and> (\<forall>m<length (vec b). vec b ! m = 0) \<and>
           (\<forall>k. \<not> Test b k))"
proof -
  from assms have "length (lwords b) \<le> 2 ^ 58" by (simp add: length_lwords)
  note N = FindLastOne_nat[OF this, unfolded length_lwords, folded FindLastOne_lwords]
  have z: "lword b m = 0 \<longleftrightarrow> vec b ! m = 0" for m
    by (simp add: lword_def swap_eq_0)
  from N show ?thesis
    by (simp add: Test_wbit word_less_nat_alt z lwords_nth cong: conj_cong)
qed

lemma run_FindLastOne_low: "FindLastOne \<lparr>vec = [5, 0], swap = False\<rparr> = (2, True)"
  by code_simp

theorem FindLastOne_correct_witness:
  "length (vec \<lparr>vec = [5, 0], swap = False\<rparr>) \<le> 2 ^ 58 \<and>
   FindLastOne \<lparr>vec = [5, 0], swap = False\<rparr> = (2, True) \<and>
   Test \<lparr>vec = [5, 0], swap = False\<rparr> 2 \<and>
   \<not> Test \<lparr>vec = [5, 0], swap = False\<rparr> 3"
proof -
  have h: "length (vec \<lparr>vec = [5, 0], swap = False\<rparr>) \<le> 2 ^ 58" by simp
  have o: "(2 :: uint) < 3" by simp
  from FindLastOne_correct [OF h] o h show ?thesis
    unfolding run_FindLastOne_low fst_conv snd_conv by blast
qed

section \<open>Declared byte order\<close>

lemma bit8: "bit (x :: byte) k \<Longrightarrow> k < 8"
  by (auto dest: bit_imp_le_length)

lemma bit_word_of_bytes_le:
  "bit (word_of_bytes_le bs) k \<longleftrightarrow> k < 64 \<and> k div 8 < length bs \<and> bit (bs ! (k div 8)) (k mod 8)"
proof (induction bs arbitrary: k)
  case Nil
  show ?case by simp
next
  case (Cons x xs)
  show ?case
  proof (cases "k < 8")
    case True
    then show ?thesis by (auto simp add: bit_simps dest: bit8)
  next
    case False
    then have k: "8 \<le> k" by simp
    then have d: "(k - 8) div 8 = k div 8 - 1" and m: "(k - 8) mod 8 = k mod 8"
      by (simp_all add: le_mod_geq)
    from k have p: "0 < k div 8" by simp
    then have n: "(x # xs) ! (k div 8) = xs ! (k div 8 - 1)" by (simp add: nth_Cons')
    have "\<not> bit x k" using False bit8 by blast
    then have "bit (word_of_bytes_le (x # xs)) k \<longleftrightarrow> k < 64 \<and> bit (word_of_bytes_le xs) (k - 8)"
      using k by (auto simp add: bit_simps)
    also have "\<dots> \<longleftrightarrow> k < 64 \<and> k div 8 - 1 < length xs \<and> bit (xs ! (k div 8 - 1)) (k mod 8)"
      unfolding Cons.IH d m using k by auto
    also have "\<dots> \<longleftrightarrow> k < 64 \<and> k div 8 < length (x # xs) \<and> bit ((x # xs) ! (k div 8)) (k mod 8)"
      unfolding n using p by auto
    finally show ?thesis .
  qed
qed

lemma word_of_bytes_le_rev:
  assumes "length bs = 8"
  shows "word_of_bytes_le (rev bs) = swapUint64 (word_of_bytes_le bs)"
proof (rule bit_word_eqI)
  fix k assume "k < LENGTH(64)"
  then have k: "k < 64" by simp
  then have q: "k div 8 < 8" by simp
  let ?j = "8 * (7 - k div 8) + k mod 8"
  have jd: "?j div 8 = 7 - k div 8" and jm: "?j mod 8 = k mod 8" by simp_all
  from q have j: "?j < 64" by simp
  from q assms have r: "rev bs ! (k div 8) = bs ! (7 - k div 8)" by (simp add: rev_nth)
  show "bit (word_of_bytes_le (rev bs)) k = bit (swapUint64 (word_of_bytes_le bs)) k"
    unfolding swap_bit bit_word_of_bytes_le jd jm
    using k q j r assms by simp
qed

lemma chunks8_lengths:
  "length b = 8 * n \<Longrightarrow> c \<in> set (chunks8 n b) \<Longrightarrow> length c = 8"
proof (induction n arbitrary: b)
  case 0
  then show ?case by simp
next
  case (Suc n)
  from Suc.prems(1) have d: "length (drop 8 b) = 8 * n" and t: "length (take 8 b) = 8"
    by simp_all
  from Suc.prems(2) have "c = take 8 b \<or> c \<in> set (chunks8 n (drop 8 b))" by simp
  with t Suc.IH[OF d] show ?case by blast
qed

lemma chunks8_swapped:
  "length b = 8 * n \<Longrightarrow> chunks8 n (concat (map rev (chunks8 n b))) = map rev (chunks8 n b)"
proof (induction n arbitrary: b)
  case 0
  show ?case by simp
next
  case (Suc n)
  from Suc.prems have l: "length (take 8 b) = 8" and d: "length (drop 8 b) = 8 * n" by simp_all
  from Suc.IH[OF d] l show ?case by simp
qed

lemma length_byteswap8: "length b mod 8 = 0 \<Longrightarrow> length (byteswap8 b) = length b"
proof -
  assume "length b mod 8 = 0"
  then have e: "length b = 8 * (length b div 8)" by auto
  have "length (concat (map rev (chunks8 n b))) = 8 * n" if "length b = 8 * n" for n
    using that
    by (induction n arbitrary: b) simp_all
  from this[OF e] e show ?thesis by (simp add: byteswap8_def)
qed

lemma lwords_symmetric:
  assumes h: "h = LittleEndian \<or> h = BigEndian" and len: "length b mod 8 = 0"
  shows "lwords \<lparr>vec = words_of_bytes h b, swap = (LittleEndian \<noteq> h)\<rparr> =
         lwords \<lparr>vec = words_of_bytes h (byteswap8 b), swap = (BigEndian \<noteq> h)\<rparr>"
proof -
  let ?n = "length b div 8"
  from len have e: "length b = 8 * ?n" by auto
  have c: "chunks8 ?n (byteswap8 b) = map rev (chunks8 ?n b)"
    unfolding byteswap8_def using e by (rule chunks8_swapped)
  have l8: "length c = 8" if "c \<in> set (chunks8 ?n b)" for c
    using e that by (rule chunks8_lengths)
  have a: "map (\<lambda>c. swapUint64 (word_of_bytes_le (rev c))) (chunks8 ?n b) =
           map word_of_bytes_le (chunks8 ?n b)"
  proof (rule map_cong[OF refl])
    fix c assume "c \<in> set (chunks8 ?n b)"
    then have "length c = 8" by (rule l8)
    then have "word_of_bytes_le (rev c) = swapUint64 (word_of_bytes_le c)"
      by (rule word_of_bytes_le_rev)
    then show "swapUint64 (word_of_bytes_le (rev c)) = word_of_bytes_le c"
      by (simp only: swap_swap)
  qed
  from h show ?thesis
  proof
    assume "h = LittleEndian"
    then show ?thesis
      by (simp add: lwords_def words_of_bytes_def wordBytes_def load_word_def
          length_byteswap8[OF len] c comp_def a)
  next
    assume "h = BigEndian"
    then show ?thesis
      by (simp add: lwords_def words_of_bytes_def wordBytes_def load_word_def
          length_byteswap8[OF len] c comp_def a)
  qed
qed

text \<open>
  C2. On a Little or Big host, for a buffer \<open>b\<close> of whole words and its byte-swapped
  copy \<open>byteswap8 b\<close>: \<open>New\<close> succeeds on \<open>b\<close> declared Little and on the copy declared
  Big, and the two vectors give the same \<open>Test i\<close> for every index \<open>i\<close>.
\<close>

theorem endianness_symmetry:
  assumes "h = LittleEndian \<or> h = BigEndian" and "length b mod 8 = 0"
  shows "\<exists>v1 v2. New h b LittleEndian = Inr v1 \<and> New h (byteswap8 b) BigEndian = Inr v2 \<and>
           (\<forall>i. Test v1 i = Test v2 i)"
proof -
  let ?v1 = "\<lparr>vec = words_of_bytes h b, swap = (LittleEndian \<noteq> h)\<rparr>"
  let ?v2 = "\<lparr>vec = words_of_bytes h (byteswap8 b), swap = (BigEndian \<noteq> h)\<rparr>"
  from assms have 1: "New h b LittleEndian = Inr ?v1"
    by (auto simp add: New_def)
  from assms have 2: "New h (byteswap8 b) BigEndian = Inr ?v2"
    by (auto simp add: New_def length_byteswap8)
  have "Test ?v1 i = Test ?v2 i" for i
    unfolding Test_wbit lwords_symmetric[OF assms] ..
  with 1 2 show ?thesis by blast
qed

lemma run_byteswap8: "byteswap8 [1, 2, 3, 4, 5, 6, 7, 8] = [8, 7, 6, 5, 4, 3, 2, 1]"
  by code_simp

theorem endianness_symmetry_witness:
  "\<exists>v1 v2. New LittleEndian [1, 2, 3, 4, 5, 6, 7, 8] LittleEndian = Inr v1 \<and>
      New LittleEndian [8, 7, 6, 5, 4, 3, 2, 1] BigEndian = Inr v2 \<and>
      (\<forall>i. Test v1 i = Test v2 i)"
  using endianness_symmetry [where h = LittleEndian and b = "[1, 2, 3, 4, 5, 6, 7, 8]"]
  unfolding run_byteswap8 by simp

end
